theory Spec2Isabelle
  imports Complex_Main "HOL-Library.Word" "HOL-Library.Sublist"
begin

section \<open>Voice-activity segmentation: \<^verbatim>\<open>wav_split.py\<close>\<close>

text \<open>
  The development embeds the two generators of \<^verbatim>\<open>wav_split.py\<close>,
  \<^verbatim>\<open>frame_generator\<close> and \<^verbatim>\<open>vad_collector\<close>, together with the
  \<^verbatim>\<open>Frame\<close> class, and proves the properties the specification states about them.

  A Python generator is modelled by what a consumer that drains it observes: the list of
  the values it yields, and how it ends (exhausted, or an exception). The file reading,
  resampling and wave writing functions are not part of the development.
\<close>

subsection \<open>Python floats\<close>

text \<open>
  A Python \<^verbatim>\<open>float\<close> is an IEEE 754 binary64 number. The finite ones are rationals, so
  a float is modelled as a \<^typ>\<open>rat\<close> and every arithmetic operation as the exact
  operation followed by rounding to the nearest number with a 53 bit significand, ties to
  the even significand. The exponent is left unbounded: overflow to infinity (beyond
  about \<open>1.8e308\<close>) and subnormal numbers (below about \<open>2.2e-308\<close>) are outside the model.
\<close>

type_synonym pyfloat = rat

text \<open>The number of binary digits of a positive integer (\<^verbatim>\<open>int.bit_length\<close>).\<close>

function bit_length :: "int \<Rightarrow> nat" where
  "bit_length k = (if k \<le> 0 then 0 else Suc (bit_length (k div 2)))"
  by pat_completeness auto
termination
  by (relation "measure nat") auto

declare bit_length.simps [simp del]

definition pow2 :: "int \<Rightarrow> rat" where
  "pow2 e = (if 0 \<le> e then 2 ^ nat e else 1 / 2 ^ nat (- e))"

text \<open>The binary exponent of a positive rational \<open>x\<close>: the \<open>e\<close> with \<open>2^e \<le> x < 2^(e+1)\<close>.\<close>

definition exponent :: "rat \<Rightarrow> int" where
  "exponent x =
     (if 1 \<le> x then int (bit_length \<lfloor>x\<rfloor>) - 1
      else - int (bit_length (\<lceil>1 / x\<rceil> - 1)))"

definition round_half_even :: "rat \<Rightarrow> int" where
  "round_half_even x =
     (let f = \<lfloor>x\<rfloor>; r = x - of_int f
      in if r < 1 / 2 then f
         else if 1 / 2 < r then f + 1
         else if even f then f else f + 1)"

definition double_round :: "rat \<Rightarrow> pyfloat" where
  "double_round x =
     (if x = 0 then 0
      else let a = \<bar>x\<bar>; u = pow2 (exponent a - 52)
           in sgn x * (of_int (round_half_even (a / u)) * u))"

definition fadd :: "pyfloat \<Rightarrow> pyfloat \<Rightarrow> pyfloat" where
  "fadd a b = double_round (a + b)"

definition fmul :: "pyfloat \<Rightarrow> pyfloat \<Rightarrow> pyfloat" where
  "fmul a b = double_round (a * b)"

text \<open>Float division; the callers test the divisor for zero first, as Python raises there.\<close>

definition fdiv :: "pyfloat \<Rightarrow> pyfloat \<Rightarrow> pyfloat" where
  "fdiv a b = double_round (a / b)"

text \<open>\<^verbatim>\<open>float(i)\<close>, and the implicit conversion of an int operand.\<close>

definition float_of_int :: "int \<Rightarrow> pyfloat" where
  "float_of_int i = double_round (of_int i)"

text \<open>\<^verbatim>\<open>int(x)\<close> truncates towards zero.\<close>

definition py_int :: "pyfloat \<Rightarrow> int" where
  "py_int x = (if 0 \<le> x then \<lfloor>x\<rfloor> else \<lceil>x\<rceil>)"

subsection \<open>Errors, bytes, frames\<close>

datatype py_error = ZeroDivisionError | ValueError | OtherError string

type_synonym byte = "8 word"

text \<open>\<^verbatim>\<open>class Frame\<close>: the raw bytes of the frame, its start time and its duration.\<close>

record Frame =
  bytes :: "byte list"
  timestamp :: pyfloat
  duration :: pyfloat

text \<open>
  Python's slice \<^verbatim>\<open>xs[i:j]\<close>: a negative index counts from the end, and both
  indices are clamped to the list.
\<close>

definition slice_index :: "int \<Rightarrow> int \<Rightarrow> nat" where
  "slice_index len i = (if i < 0 then nat (max 0 (i + len)) else nat (min i len))"

definition py_slice :: "'a list \<Rightarrow> int \<Rightarrow> int \<Rightarrow> 'a list" where
  "py_slice xs i j =
     (let len = int (length xs); a = slice_index len i; b = slice_index len j
      in take (b - a) (drop a xs))"

subsection \<open>The framer: \<^verbatim>\<open>frame_generator\<close>\<close>

text \<open>
  \<^verbatim>\<open>n = int(sample_rate * (frame_duration_ms / 1000.0) * 2)\<close>, with integer arguments.
\<close>

definition frame_size :: "int \<Rightarrow> int \<Rightarrow> int" where
  "frame_size sample_rate frame_duration_ms =
     py_int (fmul (fmul (float_of_int sample_rate)
                        (fdiv (float_of_int frame_duration_ms) 1000)) 2)"

text \<open>
  The \<^verbatim>\<open>while\<close> loop. With \<open>n \<le> 0\<close> the loop test can stay true for ever and the
  generator yields without end: then the result is \<open>None\<close>.
\<close>

partial_function (option) frame_loop ::
  "int \<Rightarrow> byte list \<Rightarrow> int \<Rightarrow> pyfloat \<Rightarrow> pyfloat \<Rightarrow> Frame list option" where
  "frame_loop n audio offset ts d =
     (if offset + n < int (length audio)
      then Option.bind (frame_loop n audio (offset + n) (fadd ts d) d)
             (\<lambda>fs. Some (\<lparr>bytes = py_slice audio offset (offset + n),
                             timestamp = ts, duration = d\<rparr> # fs))
      else Some [])"

text \<open>
  \<^verbatim>\<open>duration = (float(n) / sample_rate) / 2.0\<close> raises \<^verbatim>\<open>ZeroDivisionError\<close> when
  the sample rate is zero, before the first frame.
\<close>

definition frame_duration :: "int \<Rightarrow> int \<Rightarrow> pyfloat" where
  "frame_duration n sample_rate = fdiv (fdiv (float_of_int n) (float_of_int sample_rate)) 2"

definition frame_generator :: "int \<Rightarrow> byte list \<Rightarrow> int \<Rightarrow> (py_error + Frame list) option" where
  "frame_generator frame_duration_ms audio sample_rate =
     (let n = frame_size sample_rate frame_duration_ms
      in if sample_rate = 0 then Some (Inl ZeroDivisionError)
         else map_option Inr (frame_loop n audio 0 0 (frame_duration n sample_rate)))"

subsection \<open>The segment collector: \<^verbatim>\<open>vad_collector\<close>\<close>

text \<open>
  \<^verbatim>\<open>collections.deque(maxlen=m).append(x)\<close>: the element is appended on the right and,
  when the deque is then longer than \<open>m\<close>, the leftmost element is dropped.
\<close>

definition deque_append :: "nat \<Rightarrow> 'a list \<Rightarrow> 'a \<Rightarrow> 'a list" where
  "deque_append maxlen d x = (let d' = d @ [x] in if maxlen < length d' then tl d' else d')"

text \<open>\<^verbatim>\<open>0.9 * ring_buffer.maxlen\<close>: the float literal times the converted int.\<close>

definition threshold :: "nat \<Rightarrow> pyfloat" where
  "threshold maxlen = fmul (double_round (9 / 10)) (float_of_int (int maxlen))"

definition num_voiced :: "(Frame \<times> bool) list \<Rightarrow> nat" where
  "num_voiced rb = length [f. (f, speech) \<leftarrow> rb, speech]"

definition num_unvoiced :: "(Frame \<times> bool) list \<Rightarrow> nat" where
  "num_unvoiced rb = length [f. (f, speech) \<leftarrow> rb, \<not> speech]"

text \<open>\<^verbatim>\<open>b''.join([f.bytes for f in voiced_frames])\<close>\<close>

definition join_frames :: "Frame list \<Rightarrow> byte list" where
  "join_frames fs = concat (map bytes fs)"

record collector_state =
  triggered :: bool
  ring_buffer :: "(Frame \<times> bool) list"
  voiced_frames :: "Frame list"

definition initial_state :: collector_state where
  "initial_state = \<lparr>triggered = False, ring_buffer = [], voiced_frames = []\<rparr>"

text \<open>
  The body of the \<^verbatim>\<open>for\<close> loop after the classifier has answered: the new state and
  the buffers yielded in this iteration (none or one).
\<close>

definition collector_step ::
  "nat \<Rightarrow> collector_state \<Rightarrow> Frame \<Rightarrow> bool \<Rightarrow> collector_state \<times> byte list list" where
  "collector_step maxlen s frame is_speech =
     (if \<not> triggered s then
        let rb = deque_append maxlen (ring_buffer s) (frame, is_speech)
        in if threshold maxlen < of_nat (num_voiced rb)
           then (\<lparr>triggered = True, ring_buffer = [],
                  voiced_frames = voiced_frames s @ map fst rb\<rparr>, [])
           else (s\<lparr>ring_buffer := rb\<rparr>, [])
      else
        let vf = voiced_frames s @ [frame];
            rb = deque_append maxlen (ring_buffer s) (frame, is_speech)
        in if threshold maxlen < of_nat (num_unvoiced rb)
           then (\<lparr>triggered = False, ring_buffer = [], voiced_frames = []\<rparr>, [join_frames vf])
           else (s\<lparr>ring_buffer := rb, voiced_frames := vf\<rparr>, []))"

text \<open>The code after the loop: leftover voiced audio is yielded when the input runs out.\<close>

definition final_flush :: "collector_state \<Rightarrow> byte list list" where
  "final_flush s = (if voiced_frames s \<noteq> [] then [join_frames (voiced_frames s)] else [])"

text \<open>
  The classifier is the object \<^verbatim>\<open>vad\<close>: its method \<^verbatim>\<open>is_speech(bytes, sample_rate)\<close>
  answers or raises, and may change the object, whose state is threaded as \<open>'v\<close>.
\<close>

type_synonym 'v classifier = "'v \<Rightarrow> byte list \<Rightarrow> int \<Rightarrow> (py_error + bool) \<times> 'v"

text \<open>
  The \<^verbatim>\<open>for\<close> loop and the flush: the buffers yielded, and the exception that ended the
  generator, if any. A classifier exception leaves the generator at once.
\<close>

fun collector_loop ::
  "int \<Rightarrow> nat \<Rightarrow> 'v classifier \<Rightarrow> 'v \<Rightarrow> collector_state \<Rightarrow> Frame list
     \<Rightarrow> byte list list \<times> py_error option" where
  "collector_loop sample_rate maxlen vad v s [] = (final_flush s, None)"
| "collector_loop sample_rate maxlen vad v s (frame # frames) =
     (case vad v (bytes frame) sample_rate of
        (Inl e, v') \<Rightarrow> ([], Some e)
      | (Inr is_speech, v') \<Rightarrow>
          (let (s', out) = collector_step maxlen s frame is_speech;
               (outs, r) = collector_loop sample_rate maxlen vad v' s' frames
           in (out @ outs, r)))"

text \<open>
  \<^verbatim>\<open>num_padding_frames = int(padding_duration_ms / frame_duration_ms)\<close> on ints is the
  correctly rounded quotient, truncated; it raises on a zero divisor, and
  \<^verbatim>\<open>deque(maxlen=...)\<close> raises \<^verbatim>\<open>ValueError\<close> on a negative length.
\<close>

definition num_padding_frames :: "int \<Rightarrow> int \<Rightarrow> py_error + nat" where
  "num_padding_frames padding_duration_ms frame_duration_ms =
     (if frame_duration_ms = 0 then Inl ZeroDivisionError
      else let m = py_int (double_round (of_int padding_duration_ms / of_int frame_duration_ms))
           in if m < 0 then Inl ValueError else Inr (nat m))"

definition vad_collector ::
  "int \<Rightarrow> int \<Rightarrow> int \<Rightarrow> 'v classifier \<Rightarrow> 'v \<Rightarrow> Frame list \<Rightarrow> byte list list \<times> py_error option" where
  "vad_collector sample_rate frame_duration_ms padding_duration_ms vad v frames =
     (case num_padding_frames padding_duration_ms frame_duration_ms of
        Inl e \<Rightarrow> ([], Some e)
      | Inr maxlen \<Rightarrow> collector_loop sample_rate maxlen vad v initial_state frames)"


subsection \<open>Notions used to state the properties\<close>

text \<open>
  The loop of \<^const>\<open>collector_loop\<close> on frames the classifier has already answered: the
  state after the last frame and the buffers yielded on the way, without the flush.
\<close>

fun collector_run ::
  "nat \<Rightarrow> collector_state \<Rightarrow> (Frame \<times> bool) list \<Rightarrow> collector_state \<times> byte list list" where
  "collector_run maxlen s [] = (s, [])"
| "collector_run maxlen s ((frame, is_speech) # rest) =
     (let (s', out) = collector_step maxlen s frame is_speech;
          (s'', outs) = collector_run maxlen s' rest
      in (s'', out @ outs))"

text \<open>
  What the classifier does during a run of the collector: its answers in order, up to and
  including the first exception.
\<close>

fun classify_all :: "int \<Rightarrow> 'v classifier \<Rightarrow> 'v \<Rightarrow> Frame list \<Rightarrow> (py_error + bool) list" where
  "classify_all sample_rate vad v [] = []"
| "classify_all sample_rate vad v (frame # frames) =
     (case vad v (bytes frame) sample_rate of
        (Inl e, v') \<Rightarrow> [Inl e]
      | (Inr is_speech, v') \<Rightarrow> Inr is_speech # classify_all sample_rate vad v' frames)"

text \<open>The sliding window of the specification: the last \<open>w\<close> elements pushed.\<close>

definition window :: "nat \<Rightarrow> 'a list \<Rightarrow> 'a list" where
  "window w xs = drop (length xs - w) xs"

text \<open>
  A state is consistent with the frames seen so far when the segment list is non-empty
  exactly in the triggered state, and both the segment list and the frames of the ring
  buffer are the most recent frames seen.
\<close>

definition consistent :: "collector_state \<Rightarrow> Frame list \<Rightarrow> bool" where
  "consistent s seen \<longleftrightarrow>
     (triggered s \<longleftrightarrow> voiced_frames s \<noteq> []) \<and>
     suffix (voiced_frames s) seen \<and> suffix (map fst (ring_buffer s)) seen"

text \<open>A buffer that joins a non-empty run of consecutive frames of \<open>frames\<close>.\<close>

definition consecutive_run :: "byte list \<Rightarrow> Frame list \<Rightarrow> bool" where
  "consecutive_run seg frames \<longleftrightarrow>
     (\<exists>before run after. frames = before @ run @ after \<and> run \<noteq> [] \<and> seg = join_frames run)"

text \<open>The timestamp after \<open>k\<close> additions of the duration, each one rounded.\<close>

definition timestamp_after :: "pyfloat \<Rightarrow> pyfloat \<Rightarrow> nat \<Rightarrow> pyfloat" where
  "timestamp_after ts d k = ((\<lambda>t. fadd t d) ^^ k) ts"

text \<open>The \<open>k\<close>-th frame cut from \<open>audio\<close>, the first one at byte \<open>start\<close> and time \<open>ts\<close>.\<close>

definition nth_frame :: "nat \<Rightarrow> byte list \<Rightarrow> pyfloat \<Rightarrow> pyfloat \<Rightarrow> nat \<Rightarrow> nat \<Rightarrow> Frame" where
  "nth_frame n audio ts d start k =
     \<lparr>bytes = take n (drop (start + k * n) audio),
      timestamp = timestamp_after ts d k, duration = d\<rparr>"

subsection \<open>Example data\<close>

definition fA :: Frame where
  "fA = \<lparr>bytes = [1, 2], timestamp = 0, duration = 1\<rparr>"

definition fB :: Frame where
  "fB = \<lparr>bytes = [3, 4], timestamp = 1, duration = 1\<rparr>"

definition fC :: Frame where
  "fC = \<lparr>bytes = [5, 6], timestamp = 2, duration = 1\<rparr>"

definition empty_frame :: Frame where
  "empty_frame = \<lparr>bytes = [], timestamp = 0, duration = 0\<rparr>"

text \<open>A classifier without state that finds speech in every frame.\<close>

definition always_voiced :: "unit classifier" where
  "always_voiced v b sample_rate = (Inr True, v)"

text \<open>A classifier that replays a script of answers, one for each call.\<close>

definition scripted :: "(py_error + bool) list classifier" where
  "scripted v b sample_rate =
     (case v of [] \<Rightarrow> (Inl (OtherError ''script exhausted''), [])
      | a # rest \<Rightarrow> (a, rest))"


text \<open>The votes of the concrete scenario of the specification.\<close>

definition scenario_votes :: "bool list" where
  "scenario_votes = replicate 5 False @ replicate 15 True @ replicate 5 False"

text \<open>Twenty-five frames for the scenario, told apart by their single byte.\<close>

definition scenario_frames :: "Frame list" where
  "scenario_frames = map (\<lambda>k. \<lparr>bytes = [of_nat k], timestamp = 0, duration = 0\<rparr>) [0..<25]"

text \<open>The equation of the framer's loop is also its code equation.\<close>

declare frame_loop.simps [code]

section \<open>Auxiliary facts\<close>

subsection \<open>Rounding\<close>

lemma pow2_pos: "0 < pow2 e"
  by (simp add: pow2_def)









lemma round_half_even_nonneg: "0 \<le> x \<Longrightarrow> 0 \<le> round_half_even x"
  by (auto simp: round_half_even_def Let_def)

lemma double_round_nonneg: "0 \<le> x \<Longrightarrow> 0 \<le> double_round x"
  by (auto simp: double_round_def Let_def pow2_pos less_imp_le
      intro!: mult_nonneg_nonneg round_half_even_nonneg divide_nonneg_pos)

lemma threshold_nonneg: "0 \<le> threshold w"
  by (simp add: threshold_def fmul_def float_of_int_def double_round_nonneg)

subsection \<open>Timestamps\<close>






subsection \<open>The ring buffer\<close>

lemma window_length: "length (window w xs) \<le> w"
  by (simp add: window_def)

lemma window_id: "length xs \<le> w \<Longrightarrow> window w xs = xs"
  by (simp add: window_def)

lemma deque_append_window:
  "length d \<le> w \<Longrightarrow> deque_append w d x = window w (d @ [x])"
  by (cases d) (auto simp: deque_append_def window_def Let_def Suc_diff_le)

lemma window_append_window: "window w (window w xs @ ys) = window w (xs @ ys)"
proof (cases "length xs \<le> w")
  case True
  then show ?thesis by (simp add: window_id)
next
  case False
  then have "length xs + length ys - w = (length xs - w) + length ys" by simp
  with False show ?thesis by (simp add: window_def add.commute)
qed

lemma deque_append_length: "length d \<le> w \<Longrightarrow> length (deque_append w d x) \<le> w"
  by (simp add: deque_append_window window_length)

lemma deque_append_suffix: "suffix (deque_append w d x) (d @ [x])"
  by (cases d) (auto simp: deque_append_def Let_def suffix_def)

lemma deque_append_fst_suffix:
  assumes "suffix (map fst d) seen"
  shows "suffix (map fst (deque_append w d (f, b))) (seen @ [f])"
proof -
  have "suffix (map fst (deque_append w d (f, b))) (map fst (d @ [(f, b)]))"
    using deque_append_suffix by (rule map_mono_suffix)
  moreover have "suffix (map fst (d @ [(f, b)])) (seen @ [f])"
    using assms by (simp add: suffix_def)
  ultimately show ?thesis by (rule suffix_order.trans)
qed

lemma num_voiced_filter: "num_voiced rb = length (filter snd rb)"
  unfolding num_voiced_def by (induction rb) auto

lemma num_unvoiced_filter: "num_unvoiced rb = length (filter (\<lambda>x. \<not> snd x) rb)"
  unfolding num_unvoiced_def by (induction rb) auto

lemma num_voiced_le: "num_voiced rb \<le> length rb"
  by (simp add: num_voiced_filter)

lemma num_unvoiced_le: "num_unvoiced rb \<le> length rb"
  by (simp add: num_unvoiced_filter)

lemma filter_all_iff: "length (filter P xs) = length xs \<longleftrightarrow> (\<forall>x\<in>set xs. P x)"
  by (metis filter_id_conv length_filter_less less_irrefl_nat filter_True)

lemma exceeding_nonempty: "threshold w < of_nat (num_voiced rb) \<Longrightarrow> rb \<noteq> []"
  using threshold_nonneg [of w] by (auto simp: num_voiced_def)

subsection \<open>Runs of the collector\<close>

lemma collector_run_append:
  "collector_run w s (xs @ ys) =
     (let (s', outs) = collector_run w s xs; (s'', outs') = collector_run w s' ys
      in (s'', outs @ outs'))"
  by (induction xs arbitrary: s) (auto simp: Let_def split: prod.splits)

lemma not_triggered_run:
  assumes "\<not> triggered s" "length (ring_buffer s) \<le> w"
    and "\<forall>k\<in>{1..length xs}. \<not> threshold w < of_nat (num_voiced (window w (ring_buffer s @ take k xs)))"
  shows "collector_run w s xs = (s\<lparr>ring_buffer := window w (ring_buffer s @ xs)\<rparr>, [])"
  using assms
proof (induction xs arbitrary: s)
  case Nil
  then show ?case by (simp add: window_id)
next
  case (Cons x xs)
  obtain f b where x: "x = (f, b)" by (cases x)
  let ?rb = "window w (ring_buffer s @ [x])"
  have rb: "deque_append w (ring_buffer s) x = ?rb"
    using Cons.prems(2) by (rule deque_append_window)
  have "1 \<in> {1..length (x # xs)}" by simp
  with Cons.prems(3) have no: "\<not> threshold w < of_nat (num_voiced ?rb)"
    by (metis One_nat_def take0 take_Suc_Cons)
  let ?s = "s\<lparr>ring_buffer := ?rb\<rparr>"
  have step: "collector_step w s f b = (?s, [])"
    using Cons.prems(1) no rb by (simp add: collector_step_def x Let_def)
  have "\<forall>k\<in>{1..length xs}. \<not> threshold w < of_nat (num_voiced (window w (ring_buffer ?s @ take k xs)))"
  proof
    fix k assume "k \<in> {1..length xs}"
    then have "Suc k \<in> {1..length (x # xs)}" by simp
    with Cons.prems(3) have "\<not> threshold w < of_nat (num_voiced (window w (ring_buffer s @ take (Suc k) (x # xs))))"
      by blast
    then show "\<not> threshold w < of_nat (num_voiced (window w (ring_buffer ?s @ take k xs)))"
      using window_append_window [of w "ring_buffer s @ [x]" "take k xs"] by simp
  qed
  then have "collector_run w ?s xs = (?s\<lparr>ring_buffer := window w (ring_buffer ?s @ xs)\<rparr>, [])"
    using Cons.prems(1) by (intro Cons.IH) (simp_all add: window_length)
  then show ?case
    using step window_append_window [of w "ring_buffer s @ [x]" xs] by (simp add: x)
qed

lemma triggered_run:
  assumes "triggered s" "length (ring_buffer s) \<le> w"
    and "\<forall>k\<in>{1..length xs}. \<not> threshold w < of_nat (num_unvoiced (window w (ring_buffer s @ take k xs)))"
  shows "collector_run w s xs =
           (s\<lparr>ring_buffer := window w (ring_buffer s @ xs),
              voiced_frames := voiced_frames s @ map fst xs\<rparr>, [])"
  using assms
proof (induction xs arbitrary: s)
  case Nil
  then show ?case by (simp add: window_id)
next
  case (Cons x xs)
  obtain f b where x: "x = (f, b)" by (cases x)
  let ?rb = "window w (ring_buffer s @ [x])"
  have rb: "deque_append w (ring_buffer s) x = ?rb"
    using Cons.prems(2) by (rule deque_append_window)
  have "1 \<in> {1..length (x # xs)}" by simp
  with Cons.prems(3) have no: "\<not> threshold w < of_nat (num_unvoiced ?rb)"
    by (metis One_nat_def take0 take_Suc_Cons)
  let ?s = "s\<lparr>ring_buffer := ?rb, voiced_frames := voiced_frames s @ [f]\<rparr>"
  have step: "collector_step w s f b = (?s, [])"
    using Cons.prems(1) no rb by (simp add: collector_step_def x Let_def)
  have "\<forall>k\<in>{1..length xs}. \<not> threshold w < of_nat (num_unvoiced (window w (ring_buffer ?s @ take k xs)))"
  proof
    fix k assume "k \<in> {1..length xs}"
    then have "Suc k \<in> {1..length (x # xs)}" by simp
    with Cons.prems(3) have "\<not> threshold w < of_nat (num_unvoiced (window w (ring_buffer s @ take (Suc k) (x # xs))))"
      by blast
    then show "\<not> threshold w < of_nat (num_unvoiced (window w (ring_buffer ?s @ take k xs)))"
      using window_append_window [of w "ring_buffer s @ [x]" "take k xs"] by simp
  qed
  then have "collector_run w ?s xs =
      (?s\<lparr>ring_buffer := window w (ring_buffer ?s @ xs),
           voiced_frames := voiced_frames ?s @ map fst xs\<rparr>, [])"
    using Cons.prems(1) by (intro Cons.IH) (simp_all add: window_length)
  then show ?case
    using step window_append_window [of w "ring_buffer s @ [x]" xs] by (simp add: x)
qed

lemma collector_loop_answered:
  "classify_all sr vad v frames = map Inr votes \<Longrightarrow>
   collector_loop sr w vad v s frames =
     (case collector_run w s (zip frames votes) of (s', outs) \<Rightarrow> (outs @ final_flush s', None))"
proof (induction frames arbitrary: v s votes)
  case Nil
  then show ?case by simp
next
  case (Cons f fs)
  then show ?case
    by (cases votes) (auto split: prod.splits sum.splits)
qed

lemma collector_loop_raised:
  "classify_all sr vad v frames = map Inr votes @ [Inl e] \<Longrightarrow>
   collector_loop sr w vad v s frames = (snd (collector_run w s (zip frames votes)), Some e)"
proof (induction frames arbitrary: v s votes)
  case Nil
  then show ?case by simp
next
  case (Cons f fs)
  then show ?case
    by (cases votes) (auto split: prod.splits sum.splits)
qed

lemma classify_all_length: "length (classify_all sr vad v frames) \<le> length frames"
  by (induction frames arbitrary: v) (auto split: prod.splits sum.splits)


lemma classify_all_answered_length:
  "classify_all sr vad v frames = map Inr votes \<Longrightarrow> length frames = length votes"
proof (induction frames arbitrary: v votes)
  case Nil
  then show ?case by simp
next
  case (Cons f fs)
  then show ?case
    by (cases votes) (auto split: prod.splits sum.splits)
qed

subsection \<open>Consistency of the collector state\<close>

lemma consistent_initial: "consistent initial_state []"
  by (simp add: consistent_def initial_state_def)

lemma collector_step_consistent:
  assumes "consistent s seen" and "collector_step w s f b = (s', out)"
  shows "consistent s' (seen @ [f]) \<and>
         (\<forall>seg\<in>set out. \<exists>run. run \<noteq> [] \<and> suffix run (seen @ [f]) \<and> seg = join_frames run)"
proof (cases "triggered s")
  case False
  let ?rb = "deque_append w (ring_buffer s) (f, b)"
  from assms(1) False have vf: "voiced_frames s = []"
    by (simp add: consistent_def)
  have rb: "suffix (map fst ?rb) (seen @ [f])"
    using assms(1) by (intro deque_append_fst_suffix) (simp add: consistent_def)
  show ?thesis
  proof (cases "threshold w < of_nat (num_voiced ?rb)")
    case True
    then have "?rb \<noteq> []" by (rule exceeding_nonempty)
    with assms(2) False True vf rb show ?thesis
      by (auto simp: collector_step_def Let_def consistent_def)
  next
    case no: False
    with assms(2) False vf rb show ?thesis
      by (auto simp: collector_step_def Let_def consistent_def)
  qed
next
  case True
  let ?rb = "deque_append w (ring_buffer s) (f, b)"
  have rb: "suffix (map fst ?rb) (seen @ [f])"
    using assms(1) by (intro deque_append_fst_suffix) (simp add: consistent_def)
  have vf: "suffix (voiced_frames s @ [f]) (seen @ [f])"
    using assms(1) by (simp add: consistent_def)
  show ?thesis
  proof (cases "threshold w < of_nat (num_unvoiced ?rb)")
    case yes: True
    with assms(2) True vf show ?thesis
      by (auto simp: collector_step_def Let_def consistent_def)
  next
    case False
    with assms(2) True vf rb show ?thesis
      by (auto simp: collector_step_def Let_def consistent_def)
  qed
qed

lemma collector_loop_segments:
  "consistent s seen \<Longrightarrow>
   \<forall>seg\<in>set (fst (collector_loop sr w vad v s frames)). consecutive_run seg (seen @ frames)"
proof (induction frames arbitrary: s seen v)
  case Nil
  show ?case
  proof (cases "voiced_frames s = []")
    case True
    then show ?thesis by (simp add: final_flush_def)
  next
    case False
    from Nil obtain before where "seen = before @ voiced_frames s @ []"
      by (auto simp: consistent_def suffix_def)
    with False have "consecutive_run (join_frames (voiced_frames s)) seen"
      unfolding consecutive_run_def by blast
    with False show ?thesis by (simp add: final_flush_def)
  qed
next
  case (Cons f fs)
  show ?case
  proof (cases "vad v (bytes f) sr")
    case (Pair r v')
    show ?thesis
    proof (cases r)
      case (Inl e)
      with Pair show ?thesis by simp
    next
      case (Inr b)
      obtain s' out where step: "collector_step w s f b = (s', out)"
        by (cases "collector_step w s f b")
      obtain outs res where rest: "collector_loop sr w vad v' s' fs = (outs, res)"
        by (cases "collector_loop sr w vad v' s' fs")
      from collector_step_consistent [OF Cons.prems step]
      have cons': "consistent s' (seen @ [f])"
        and out: "\<forall>seg\<in>set out. \<exists>run. run \<noteq> [] \<and> suffix run (seen @ [f]) \<and> seg = join_frames run"
        by simp_all
      have "\<forall>seg\<in>set out. consecutive_run seg (seen @ f # fs)"
      proof
        fix seg assume "seg \<in> set out"
        with out obtain run where run: "run \<noteq> []" "suffix run (seen @ [f])" "seg = join_frames run"
          by blast
        from run(2) obtain before where "seen @ [f] = before @ run"
          by (auto simp: suffix_def)
        then have "seen @ f # fs = before @ run @ fs"
          by (metis append.assoc append_Cons append_Nil)
        with run show "consecutive_run seg (seen @ f # fs)"
          unfolding consecutive_run_def by blast
      qed
      moreover have "\<forall>seg\<in>set outs. consecutive_run seg (seen @ f # fs)"
        using Cons.IH [OF cons', of v'] rest by simp
      ultimately show ?thesis
        using Pair Inr step rest by auto
    qed
  qed
qed

lemma collector_run_consistent:
  "consistent s seen \<Longrightarrow> consistent (fst (collector_run w s xs)) (seen @ map fst xs)"
proof (induction xs arbitrary: s seen)
  case Nil
  then show ?case by simp
next
  case (Cons x xs)
  obtain f b where x: "x = (f, b)" by (cases x)
  obtain s' out where step: "collector_step w s f b = (s', out)"
    by (cases "collector_step w s f b")
  from collector_step_consistent [OF Cons.prems step] have "consistent s' (seen @ [f])"
    by simp
  from Cons.IH [OF this] show ?case
    using step by (auto simp: x split: prod.splits)
qed

subsection \<open>The frames of the framer\<close>

lemma py_slice_in_range:
  assumes "a + m \<le> length xs"
  shows "py_slice xs (int a) (int a + int m) = take m (drop a xs)"
  using assms by (simp add: py_slice_def slice_index_def Let_def min_def nat_add_distrib)

lemma timestamp_after_shift:
  "timestamp_after (fadd ts d) d k = timestamp_after ts d (Suc k)"
  using funpow_swap1 [of "\<lambda>t. fadd t d" k ts] by (simp add: timestamp_after_def)

lemma frame_loop_closed:
  assumes "0 < n"
  shows "frame_loop (int n) audio (int start) ts d =
           Some (map (nth_frame n audio ts d start) [0..<(length audio - start - 1) div n])"
proof (induction c \<equiv> "(length audio - start - 1) div n" arbitrary: start ts)
  case 0
  with assms have "length audio - start - 1 < n"
    by (simp add: div_eq_0_iff)
  then have "\<not> int start + int n < int (length audio)" by linarith
  with 0 show ?case
    by (subst frame_loop.simps) simp
next
  case (Suc c)
  from Suc.hyps(2) assms have "n \<le> length audio - start - 1"
    by (metis Suc_neq_Zero div_less not_le)
  with assms have lt: "start + n < length audio" by linarith
  have c: "c = (length audio - (start + n) - 1) div n"
  proof -
    have e: "length audio - start - 1 = (length audio - (start + n) - 1) + n"
      using lt by linarith
    have "(length audio - start - 1) div n = Suc ((length audio - (start + n) - 1) div n)"
      by (subst e) (use assms in simp)
    with Suc.hyps(2) show ?thesis by linarith
  qed
  have rest: "frame_loop (int n) audio (int (start + n)) (fadd ts d) d =
      Some (map (nth_frame n audio (fadd ts d) d (start + n)) [0..<c])"
    using Suc.hyps(1) [OF c] c by simp
  have shift: "map (nth_frame n audio (fadd ts d) d (start + n)) [0..<c] =
      map (nth_frame n audio ts d start) [Suc 0..<Suc c]"
    unfolding map_Suc_upt [symmetric] map_map
    by (rule map_cong) (simp_all add: nth_frame_def timestamp_after_shift add.assoc)
  have first: "\<lparr>bytes = py_slice audio (int start) (int start + int n), timestamp = ts, duration = d\<rparr>
      = nth_frame n audio ts d start 0"
    using lt py_slice_in_range [of start n audio] by (simp add: nth_frame_def timestamp_after_def)
  have "frame_loop (int n) audio (int start) ts d =
      Some (nth_frame n audio ts d start 0 # map (nth_frame n audio ts d start) [Suc 0..<Suc c])"
    using lt rest shift first
    by (subst frame_loop.simps) (simp add: algebra_simps)
  also have "nth_frame n audio ts d start 0 # map (nth_frame n audio ts d start) [Suc 0..<Suc c]
      = map (nth_frame n audio ts d start) [0..<Suc c]"
    by (simp add: upt_conv_Cons del: upt_Suc)
  finally show ?case using Suc.hyps(2) by simp
qed

lemma frame_size_zero_rate: "frame_size 0 frame_duration_ms = 0"
  by (simp add: frame_size_def float_of_int_def fmul_def double_round_def py_int_def)

lemma frame_generator_closed:
  assumes "0 < frame_size sample_rate frame_duration_ms"
  shows "frame_generator frame_duration_ms audio sample_rate =
           Some (Inr (map (nth_frame (nat (frame_size sample_rate frame_duration_ms)) audio 0
                        (frame_duration (frame_size sample_rate frame_duration_ms) sample_rate) 0)
                      [0..<(length audio - 1) div nat (frame_size sample_rate frame_duration_ms)]))"
proof -
  define n where "n = frame_size sample_rate frame_duration_ms"
  from assms have n: "0 < n" by (simp add: n_def)
  have "sample_rate \<noteq> 0"
    using assms frame_size_zero_rate [of frame_duration_ms] by auto
  moreover have "frame_loop n audio 0 0 (frame_duration n sample_rate) =
      Some (map (nth_frame (nat n) audio 0 (frame_duration n sample_rate) 0)
        [0..<(length audio - 1) div nat n])"
    using frame_loop_closed [of "nat n" audio 0 0 "frame_duration n sample_rate"] n by simp
  ultimately show ?thesis
    by (simp add: frame_generator_def Let_def n_def)
qed

lemma concat_chunks:
  "(i + k) * n \<le> length xs \<Longrightarrow>
   concat (map (\<lambda>j. take n (drop (j * n) xs)) [i..<i + k]) = take (k * n) (drop (i * n) xs)"
proof (induction k)
  case 0
  then show ?case by simp
next
  case (Suc k)
  from Suc.prems have "(i + k) * n \<le> length xs" by (simp add: algebra_simps)
  from Suc.IH [OF this]
  have "concat (map (\<lambda>j. take n (drop (j * n) xs)) [i..<i + Suc k]) =
      take (k * n) (drop (i * n) xs) @ take n (drop ((i + k) * n) xs)"
    by simp
  also have "drop ((i + k) * n) xs = drop (k * n) (drop (i * n) xs)"
    by (simp add: algebra_simps)
  also have "take (k * n) (drop (i * n) xs) @ take n (drop (k * n) (drop (i * n) xs)) =
      take (k * n + n) (drop (i * n) xs)"
    by (simp add: take_add)
  finally show ?case by (simp add: add.commute)
qed

lemma run_of_map_upt:
  assumes "map F [0..<m] = before @ run @ after"
  shows "run = map F [length before..<length before + length run] \<and>
         length before + length run \<le> m"
proof -
  have len: "m = length before + length run + length after"
    using arg_cong [OF assms, of length] by simp
  have "run = take (length run) (drop (length before) (map F [0..<m]))"
    by (simp add: assms)
  also have "\<dots> = map F (take (length run) (drop (length before) [0..<m]))"
    by (simp add: take_map drop_map)
  also have "take (length run) (drop (length before) [0..<m]) =
      [length before..<length before + length run]"
    using len by (simp add: take_upt)
  finally show ?thesis using len by simp
qed

lemma framer_run_is_slice:
  assumes "0 < frame_size sample_rate frame_duration_ms"
    and "frame_generator frame_duration_ms audio sample_rate = Some (Inr frames)"
    and "frames = before @ run @ after" and "run \<noteq> []"
  shows "join_frames run =
           take (length run * nat (frame_size sample_rate frame_duration_ms))
             (drop (length before * nat (frame_size sample_rate frame_duration_ms)) audio) \<and>
         (length before + length run) * nat (frame_size sample_rate frame_duration_ms)
           < length audio"
proof -
  note False = assms(4)
  define n where "n = nat (frame_size sample_rate frame_duration_ms)"
  define d where "d = frame_duration (frame_size sample_rate frame_duration_ms) sample_rate"
  define m where "m = (length audio - 1) div n"
  from assms(1) have n: "0 < n" by (simp add: n_def)
  from frame_generator_closed [OF assms(1), of audio] assms(2,3)
  have "map (nth_frame n audio 0 d 0) [0..<m] = before @ run @ after"
    by (simp add: n_def d_def m_def)
  from run_of_map_upt [OF this]
  have run: "run = map (nth_frame n audio 0 d 0) [length before..<length before + length run]"
    and le: "length before + length run \<le> m"
    by simp_all
  from False le have "0 < m" by (cases run) simp_all
  then have "0 < length audio - 1"
    using n by (simp add: m_def div_greater_zero_iff)
  have "m * n \<le> length audio - 1"
    by (simp add: m_def)
  with le have "(length before + length run) * n \<le> length audio - 1"
    by (meson le_trans mult_le_mono1)
  with \<open>0 < length audio - 1\<close> have bound: "(length before + length run) * n < length audio"
    by linarith
  have "join_frames run =
      concat (map (\<lambda>j. take n (drop (j * n) audio)) [length before..<length before + length run])"
    by (subst run) (simp add: join_frames_def nth_frame_def comp_def)
  also have "\<dots> = take (length run * n) (drop (length before * n) audio)"
    using bound by (intro concat_chunks) simp
  finally show ?thesis using bound by (simp add: n_def)
qed

lemma join_frames_empty_iff: "join_frames run = [] \<longleftrightarrow> (\<forall>f\<in>set run. bytes f = [])"
  by (simp add: join_frames_def)


lemma frame_count_iff:
  assumes "0 < n"
  shows "k < (len - 1) div n \<longleftrightarrow> k * n + n < (len :: nat)"
proof -
  have "k < (len - 1) div n \<longleftrightarrow> Suc k \<le> (len - 1) div n" by auto
  also have "\<dots> \<longleftrightarrow> Suc k * n \<le> len - 1"
    using assms by (rule less_eq_div_iff_mult_less_eq)
  also have "\<dots> \<longleftrightarrow> k * n + n < len"
    using assms by (cases len) (auto simp: less_Suc_eq_le add.commute)
  finally show ?thesis .
qed

lemma frame_count_exact_fill:
  assumes "0 < n" "0 < len" "len mod n = 0"
  shows "((len - 1) div n) * n = len - (n :: nat)"
proof -
  from assms(3) have "n dvd len" by (simp add: mod_0_imp_dvd)
  then obtain q' where "len = n * q'" ..
  then have "len = q' * n" by (simp add: mult.commute)
  then obtain q where q: "len = q * n" ..
  with assms(2) have "0 < q" by (cases q) simp_all
  then obtain r where r: "q = Suc r" by (cases q) simp_all
  have "len - 1 = r * n + (n - 1)"
    using assms(1) by (simp add: q r)
  moreover have "(r * n + (n - 1)) div n = r"
  proof -
    have "n \<noteq> 0" using assms(1) by simp
    then have "(r * n + (n - 1)) div n = r + (n - 1) div n"
      by (rule div_mult_self3)
    moreover have "(n - 1) div n = 0"
      using assms(1) by (intro div_less) simp
    ultimately show ?thesis by (simp only: add_0_right)
  qed
  ultimately have "(len - 1) div n = r" by simp
  then show ?thesis by (simp add: q r)
qed

subsection \<open>Constants of the examples\<close>

lemma frame_size_1000_1: "frame_size 1000 1 = 2"
  by code_simp

lemma framed_example:
  "(case frame_generator 1 [1, 2, 3, 4, 5, 6, 7] 1000 of
      Some (Inr frames) \<Rightarrow>
        vad_collector 1000 1 2 always_voiced () frames = ([[1, 2, 3, 4, 5, 6]], None)
    | _ \<Rightarrow> False)"
  by code_simp

lemma threshold_1: "threshold 1 = 8106479329266893 / 9007199254740992"
  by code_simp

lemma threshold_2: "threshold 2 = 8106479329266893 / 4503599627370496"
  by code_simp

lemma threshold_10: "threshold 10 = 9"
  by code_simp

lemma scenario_votes_list: "scenario_votes =
  [False, False, False, False, False,
   True, True, True, True, True, True, True, True, True, True, True, True, True, True, True,
   False, False, False, False, False]"
  by (simp add: scenario_votes_def numeral_eq_Suc)

lemma frames_25:
  assumes "length frames = 25"
  shows "frames = map (\<lambda>k. frames ! k) [0..<25]"
  using assms map_nth [of frames] by simp

lemma upt_25: "[0..<25] = [0,1,2,3,4,5,6,7,8,9,10,11,12,13,14,15,16,17,18,19,20,21,22,23,24]"
  by code_simp

lemma upt_26: "[0..<26] = [0,1,2,3,4,5,6,7,8,9,10,11,12,13,14,15,16,17,18,19,20,21,22,23,24,25]"
  by code_simp

lemma scenario_states:
  fixes g :: "nat \<Rightarrow> Frame"
  defines "pairs \<equiv> zip (map g [0..<25]) scenario_votes"
  shows "map (\<lambda>k. triggered (fst (collector_run 10 initial_state (take k pairs)))) [0..<26]
           = replicate 15 False @ replicate 11 True"
proof -
  have r: "replicate 15 False @ replicate 11 True =
    [False, False, False, False, False, False, False, False, False, False, False, False, False,
     False, False, True, True, True, True, True, True, True, True, True, True, True]"
    by (simp add: numeral_eq_Suc)
  show ?thesis
    unfolding pairs_def scenario_votes_list upt_25 upt_26 r
    by (simp add: collector_step_def deque_append_def num_voiced_def
        num_unvoiced_def threshold_10 initial_state_def)
qed

lemma scenario_run:
  fixes g :: "nat \<Rightarrow> Frame"
  shows "collector_run 10 initial_state (zip (map g [0..<25]) scenario_votes) =
     (\<lparr>triggered = True, ring_buffer = zip (map g [15..<25]) (drop 15 scenario_votes),
       voiced_frames = map g [5..<25]\<rparr>, [])"
  unfolding scenario_votes_list upt_25
  by (simp add: upt_rec_numeral collector_step_def deque_append_def num_voiced_def
        num_unvoiced_def threshold_10 initial_state_def)

section \<open>The properties of the specification\<close>

subsection \<open>Triggering and detriggering\<close>

text \<open>
  Claim C1. Take the collector in the state \<open>NOT_TRIGGERED\<close>, with any ring buffer of at
  most \<open>w\<close> entries, and feed it the classified frames \<open>xs\<close> and then \<open>(f, b)\<close>. As long
  as the number of voiced votes in the window (the last \<open>w\<close> entries pushed) has not
  exceeded \<open>0.9 * w\<close>, every pair has been pushed onto the ring buffer, which is that
  window, the state is still \<open>NOT_TRIGGERED\<close> and nothing was yielded. The frame \<open>f\<close> that
  first makes the count exceed \<open>0.9 * w\<close> switches to \<open>TRIGGERED\<close>, moves the frames of the
  ring buffer in their order to the end of the segment list and clears the ring buffer;
  a frame that does not exceed it is pushed like the ones before.
\<close>

theorem trigger_on_first_exceeding_frame:
  assumes "\<not> triggered s" and "length (ring_buffer s) \<le> w"
    and "\<forall>k\<in>{1..length xs}.
           \<not> threshold w < of_nat (num_voiced (window w (ring_buffer s @ take k xs)))"
  shows "collector_run w s xs = (s\<lparr>ring_buffer := window w (ring_buffer s @ xs)\<rparr>, []) \<and>
         collector_run w s (xs @ [(f, b)]) =
           (if threshold w < of_nat (num_voiced (window w (ring_buffer s @ xs @ [(f, b)])))
            then (\<lparr>triggered = True, ring_buffer = [],
                   voiced_frames =
                     voiced_frames s @ map fst (window w (ring_buffer s @ xs @ [(f, b)]))\<rparr>, [])
            else (s\<lparr>ring_buffer := window w (ring_buffer s @ xs @ [(f, b)])\<rparr>, []))"
proof -
  let ?s = "s\<lparr>ring_buffer := window w (ring_buffer s @ xs)\<rparr>"
  have run: "collector_run w s xs = (?s, [])"
    using assms by (rule not_triggered_run)
  have rb: "deque_append w (ring_buffer ?s) (f, b) = window w (ring_buffer s @ xs @ [(f, b)])"
    using deque_append_window [of "ring_buffer ?s" w "(f, b)"]
      window_append_window [of w "ring_buffer s @ xs" "[(f, b)]"]
    by (simp add: window_length)
  have "collector_run w s (xs @ [(f, b)]) = collector_step w ?s f b"
    by (simp add: collector_run_append run)
  with run rb assms(1) show ?thesis
    by (simp add: collector_step_def Let_def)
qed

theorem trigger_on_first_exceeding_frame_witness:
  "collector_run 2 initial_state [(fA, False), (fB, True)] =
     (initial_state\<lparr>ring_buffer := [(fA, False), (fB, True)]\<rparr>, []) \<and>
   collector_run 2 initial_state [(fA, False), (fB, True), (fC, True)] =
     (\<lparr>triggered = True, ring_buffer = [], voiced_frames = [fB, fC]\<rparr>, [])"
proof -
  let ?xs = "[(fA, False), (fB, True)]"
  have 1: "\<not> triggered initial_state" and 2: "length (ring_buffer initial_state) \<le> 2"
    by (simp_all add: initial_state_def)
  have 3: "\<forall>k\<in>{1..length ?xs}.
      \<not> threshold 2 < of_nat (num_voiced (window 2 (ring_buffer initial_state @ take k ?xs)))"
    by (simp add: atLeastAtMostSuc_conv initial_state_def window_def num_voiced_def threshold_2)
  show ?thesis
    using trigger_on_first_exceeding_frame [OF 1 2 3, of fC True]
    by (simp add: initial_state_def window_def num_voiced_def threshold_2
        del: collector_run.simps)
qed

text \<open>
  Claim C2. Take the collector in the state \<open>TRIGGERED\<close> and feed it the classified
  frames \<open>xs\<close> and then \<open>(f, b)\<close>. As long as the number of unvoiced votes in the window
  has not exceeded \<open>0.9 * w\<close>, every frame has been appended to the segment list and pushed
  onto the ring buffer, and nothing was yielded. The frame that first makes the count
  exceed \<open>0.9 * w\<close> switches to \<open>NOT_TRIGGERED\<close>, yields the bytes of all frames of the
  segment list, joined in order, as one buffer, and clears the ring buffer and the segment
  list.
\<close>

theorem detrigger_on_first_exceeding_frame:
  assumes "triggered s" and "length (ring_buffer s) \<le> w"
    and "\<forall>k\<in>{1..length xs}.
           \<not> threshold w < of_nat (num_unvoiced (window w (ring_buffer s @ take k xs)))"
  shows "collector_run w s xs =
           (s\<lparr>ring_buffer := window w (ring_buffer s @ xs),
              voiced_frames := voiced_frames s @ map fst xs\<rparr>, []) \<and>
         collector_run w s (xs @ [(f, b)]) =
           (if threshold w < of_nat (num_unvoiced (window w (ring_buffer s @ xs @ [(f, b)])))
            then (\<lparr>triggered = False, ring_buffer = [], voiced_frames = []\<rparr>,
                  [concat (map bytes (voiced_frames s @ map fst xs @ [f]))])
            else (s\<lparr>ring_buffer := window w (ring_buffer s @ xs @ [(f, b)]),
                    voiced_frames := voiced_frames s @ map fst xs @ [f]\<rparr>, []))"
proof -
  let ?s = "s\<lparr>ring_buffer := window w (ring_buffer s @ xs),
              voiced_frames := voiced_frames s @ map fst xs\<rparr>"
  have run: "collector_run w s xs = (?s, [])"
    using assms by (rule triggered_run)
  have rb: "deque_append w (ring_buffer ?s) (f, b) = window w (ring_buffer s @ xs @ [(f, b)])"
    using deque_append_window [of "ring_buffer ?s" w "(f, b)"]
      window_append_window [of w "ring_buffer s @ xs" "[(f, b)]"]
    by (simp add: window_length)
  have "collector_run w s (xs @ [(f, b)]) = collector_step w ?s f b"
    by (simp add: collector_run_append run)
  with run rb assms(1) show ?thesis
    by (simp add: collector_step_def Let_def join_frames_def)
qed

theorem detrigger_on_first_exceeding_frame_witness:
  "collector_run 2 \<lparr>triggered = True, ring_buffer = [], voiced_frames = [fA]\<rparr> [(fB, False)] =
     (\<lparr>triggered = True, ring_buffer = [(fB, False)], voiced_frames = [fA, fB]\<rparr>, []) \<and>
   collector_run 2 \<lparr>triggered = True, ring_buffer = [], voiced_frames = [fA]\<rparr>
       [(fB, False), (fC, False)] =
     (\<lparr>triggered = False, ring_buffer = [], voiced_frames = []\<rparr>, [[1, 2, 3, 4, 5, 6]])"
proof -
  let ?s = "\<lparr>triggered = True, ring_buffer = [], voiced_frames = [fA]\<rparr>"
  let ?xs = "[(fB, False)]"
  have 1: "triggered ?s" and 2: "length (ring_buffer ?s) \<le> 2"
    by simp_all
  have 3: "\<forall>k\<in>{1..length ?xs}.
      \<not> threshold 2 < of_nat (num_unvoiced (window 2 (ring_buffer ?s @ take k ?xs)))"
    by (simp add: window_def num_unvoiced_def threshold_2)
  show ?thesis
    using detrigger_on_first_exceeding_frame [OF 1 2 3, of fC False]
    by (simp add: window_def num_unvoiced_def threshold_2 fA_def fB_def fC_def
        del: collector_run.simps)
qed

text \<open>
  Claim C5. The comparison is the strict one with the float product \<open>0.9 * w\<close>. For
  \<open>w = 10\<close> the product is exactly \<open>9.0\<close>: a count of 9 does not exceed it, a count
  exceeds it exactly when it is at least 10. So a step in \<open>NOT_TRIGGERED\<close> enters
  \<open>TRIGGERED\<close> exactly when the ring buffer is full with 10 voiced votes, and a step in
  \<open>TRIGGERED\<close> leaves it exactly when the ring buffer is full with 10 unvoiced votes.
\<close>

theorem strict_float_threshold_ten:
  "\<not> threshold 10 < of_nat 9 \<and>
   (threshold 10 < of_nat k \<longleftrightarrow> 10 \<le> k) \<and>
   (length (ring_buffer s) \<le> 10 \<longrightarrow>
     (let rb = deque_append 10 (ring_buffer s) (f, b)
      in (\<not> triggered s \<longrightarrow>
            (triggered (fst (collector_step 10 s f b)) \<longleftrightarrow>
               length rb = 10 \<and> (\<forall>x\<in>set rb. snd x))) \<and>
         (triggered s \<longrightarrow>
            (\<not> triggered (fst (collector_step 10 s f b)) \<longleftrightarrow>
               length rb = 10 \<and> (\<forall>x\<in>set rb. \<not> snd x)))))"
proof -
  have iff: "threshold 10 < of_nat k \<longleftrightarrow> 10 \<le> k" for k
  proof -
    have "threshold 10 < of_nat k \<longleftrightarrow> (of_nat 9 :: rat) < of_nat k"
      by (simp add: threshold_10)
    also have "\<dots> \<longleftrightarrow> 9 < k" by (simp only: of_nat_less_iff)
    finally show ?thesis by auto
  qed
  have full: "10 \<le> length (filter P rb) \<longleftrightarrow> length rb = 10 \<and> (\<forall>x\<in>set rb. P x)"
    if "length rb \<le> 10" for P and rb :: "(Frame \<times> bool) list"
  proof
    assume "10 \<le> length (filter P rb)"
    moreover have "length (filter P rb) \<le> length rb" by simp
    ultimately have "length (filter P rb) = length rb" "length rb = 10"
      using that by linarith+
    then show "length rb = 10 \<and> (\<forall>x\<in>set rb. P x)"
      using filter_all_iff [of P rb] by blast
  next
    assume "length rb = 10 \<and> (\<forall>x\<in>set rb. P x)"
    then show "10 \<le> length (filter P rb)" by simp
  qed
  have step: "length (ring_buffer s) \<le> 10 \<longrightarrow>
     (let rb = deque_append 10 (ring_buffer s) (f, b)
      in (\<not> triggered s \<longrightarrow>
            (triggered (fst (collector_step 10 s f b)) \<longleftrightarrow>
               length rb = 10 \<and> (\<forall>x\<in>set rb. snd x))) \<and>
         (triggered s \<longrightarrow>
            (\<not> triggered (fst (collector_step 10 s f b)) \<longleftrightarrow>
               length rb = 10 \<and> (\<forall>x\<in>set rb. \<not> snd x))))"
  proof
    assume len: "length (ring_buffer s) \<le> 10"
    let ?rb = "deque_append 10 (ring_buffer s) (f, b)"
    have "length ?rb \<le> 10" using len by (rule deque_append_length)
    from full [OF this, of snd] full [OF this, of "\<lambda>x. \<not> snd x"]
    show "let rb = ?rb
      in (\<not> triggered s \<longrightarrow>
            (triggered (fst (collector_step 10 s f b)) \<longleftrightarrow>
               length rb = 10 \<and> (\<forall>x\<in>set rb. snd x))) \<and>
         (triggered s \<longrightarrow>
            (\<not> triggered (fst (collector_step 10 s f b)) \<longleftrightarrow>
               length rb = 10 \<and> (\<forall>x\<in>set rb. \<not> snd x)))"
      by (simp add: collector_step_def Let_def iff num_voiced_filter num_unvoiced_filter)
  qed
  from iff [of 9] iff [of k] step show ?thesis by simp
qed

theorem strict_float_threshold_ten_witness:
  "\<not> threshold 10 < of_nat 9 \<and> threshold 10 < of_nat 10 \<and>
   triggered (fst (collector_step 10
      \<lparr>triggered = False, ring_buffer = replicate 9 (fA, True), voiced_frames = []\<rparr> fB True)) \<and>
   \<not> triggered (fst (collector_step 10
      \<lparr>triggered = False, ring_buffer = (fC, False) # replicate 9 (fA, True), voiced_frames = []\<rparr>
      fB False))"
proof -
  let ?s = "\<lparr>triggered = False, ring_buffer = replicate 9 (fA, True), voiced_frames = []\<rparr>"
  let ?t = "\<lparr>triggered = False, ring_buffer = (fC, False) # replicate 9 (fA, True),
             voiced_frames = []\<rparr>"
  have "length (ring_buffer ?s) \<le> 10" "length (ring_buffer ?t) \<le> 10"
    by simp_all
  with strict_float_threshold_ten [of 10 ?s fB True] strict_float_threshold_ten [of 10 ?t fB False]
  show ?thesis
    by (simp add: deque_append_def Let_def)
qed

subsection \<open>End of input, classifier failure, replay\<close>

text \<open>
  Claim C4. With a valid configuration and a classifier that answers every frame, the
  generator yields the buffers of the loop and then, when the input is exhausted, the
  joined segment list as one last buffer if and only if that list is not empty; the test
  does not look at the state. A run that ends in \<open>TRIGGERED\<close> has a non-empty segment
  list, so its open segment is yielded once at the end. No frames give no buffers and no
  error.
\<close>

theorem flush_at_end_of_input:
  assumes "num_padding_frames padding_duration_ms frame_duration_ms = Inr w"
    and "classify_all sample_rate vad v frames = map Inr votes"
  shows "(case collector_run w initial_state (zip frames votes) of
            (s', outs) \<Rightarrow>
              vad_collector sample_rate frame_duration_ms padding_duration_ms vad v frames =
                (outs @ (if voiced_frames s' \<noteq> [] then [join_frames (voiced_frames s')] else []),
                 None) \<and>
              (triggered s' \<longrightarrow> voiced_frames s' \<noteq> [])) \<and>
         (frames = [] \<longrightarrow>
            vad_collector sample_rate frame_duration_ms padding_duration_ms vad v frames =
              ([], None))"
proof -
  obtain s' outs where run: "collector_run w initial_state (zip frames votes) = (s', outs)"
    by (cases "collector_run w initial_state (zip frames votes)")
  have loop: "vad_collector sample_rate frame_duration_ms padding_duration_ms vad v frames =
      (outs @ final_flush s', None)"
    using collector_loop_answered [OF assms(2), of w initial_state] run
    by (simp add: vad_collector_def assms(1))
  have "consistent s' ([] @ map fst (zip frames votes))"
    using collector_run_consistent [OF consistent_initial, of w "zip frames votes"] run
    by simp
  then have open_segment: "triggered s' \<longrightarrow> voiced_frames s' \<noteq> []"
    by (simp add: consistent_def)
  have "frames = [] \<longrightarrow>
      vad_collector sample_rate frame_duration_ms padding_duration_ms vad v frames = ([], None)"
    by (simp add: vad_collector_def assms(1) final_flush_def initial_state_def)
  with run loop open_segment show ?thesis
    by (simp add: final_flush_def)
qed

theorem flush_at_end_of_input_witness:
  "vad_collector 16000 30 60 always_voiced () [fA, fB, fC] = ([[1, 2, 3, 4, 5, 6]], None) \<and>
   collector_run 2 initial_state (zip [fA, fB, fC] [True, True, True]) =
     (\<lparr>triggered = True, ring_buffer = [(fC, True)], voiced_frames = [fA, fB, fC]\<rparr>, []) \<and>
   vad_collector 16000 30 60 always_voiced () [] = ([], None)"
proof -
  have w: "num_padding_frames 60 30 = Inr 2"
    by code_simp
  have votes: "classify_all 16000 always_voiced () [fA, fB, fC] = map Inr [True, True, True]"
    by (simp add: always_voiced_def)
  have none: "classify_all 16000 always_voiced () [] = map Inr []"
    by simp
  have run: "collector_run 2 initial_state (zip [fA, fB, fC] [True, True, True]) =
     (\<lparr>triggered = True, ring_buffer = [(fC, True)], voiced_frames = [fA, fB, fC]\<rparr>, [])"
    by (simp add: collector_step_def deque_append_def num_voiced_def num_unvoiced_def
        threshold_2 initial_state_def)
  show ?thesis
    using flush_at_end_of_input [OF w votes, unfolded run] flush_at_end_of_input [OF w none] run
    by (simp add: join_frames_def fA_def fB_def fC_def del: collector_run.simps)
qed

text \<open>
  Claim C8. When the classifier answers the first frames and raises on the next one, the
  generator ends with that exception: what it has yielded are the buffers yielded by the
  loop on the frames before, and nothing more, in particular no flush of an open segment.
\<close>

theorem classifier_error_ends_generator:
  assumes "num_padding_frames padding_duration_ms frame_duration_ms = Inr w"
    and "classify_all sample_rate vad v frames = map Inr votes @ [Inl e]"
  shows "vad_collector sample_rate frame_duration_ms padding_duration_ms vad v frames =
           (snd (collector_run w initial_state (zip frames votes)), Some e)"
  using collector_loop_raised [OF assms(2), of w initial_state]
  by (simp add: vad_collector_def assms(1))

theorem classifier_error_ends_generator_witness:
  "vad_collector 16000 30 60 scripted [Inr True, Inr True, Inl ValueError, Inr True]
     [fA, fB, fC, fA] = ([], Some ValueError) \<and>
   collector_run 2 initial_state (zip [fA, fB, fC, fA] [True, True]) =
     (\<lparr>triggered = True, ring_buffer = [], voiced_frames = [fA, fB]\<rparr>, [])"
proof -
  have w: "num_padding_frames 60 30 = Inr 2"
    by code_simp
  have votes: "classify_all 16000 scripted [Inr True, Inr True, Inl ValueError, Inr True]
      [fA, fB, fC, fA] = map Inr [True, True] @ [Inl ValueError]"
    by (simp add: scripted_def)
  have run: "collector_run 2 initial_state (zip [fA, fB, fC, fA] [True, True]) =
     (\<lparr>triggered = True, ring_buffer = [], voiced_frames = [fA, fB]\<rparr>, [])"
    by (simp add: collector_step_def deque_append_def num_voiced_def num_unvoiced_def
        threshold_2 initial_state_def)
  show ?thesis
    using classifier_error_ends_generator [OF w votes, unfolded run] run
    by (simp del: collector_run.simps)
qed



subsection \<open>The framer\<close>

text \<open>
  Claim C3. With \<open>n = int(sample_rate * (frame_duration_ms / 1000.0) * 2)\<close> positive, the
  framer ends and has yielded the frame that starts at byte \<open>k * n\<close> if and only if
  \<open>k * n + n < length audio\<close>. Every frame is the slice \<open>audio[k * n : k * n + n]\<close> of
  exactly \<open>n\<close> bytes; the remainder after the last frame is not yielded, and when the
  buffer is a whole number of chunks the last chunk is not yielded either.
\<close>

theorem framer_emits_only_full_frames_strictly_inside:
  fixes sample_rate frame_duration_ms :: int and audio :: "byte list"
  defines "n \<equiv> frame_size sample_rate frame_duration_ms"
  assumes "0 < n"
  shows "\<exists>frames. frame_generator frame_duration_ms audio sample_rate = Some (Inr frames) \<and>
     (\<forall>k. k < length frames \<longleftrightarrow> int k * n + n < int (length audio)) \<and>
     (\<forall>k<length frames.
         bytes (frames ! k) = py_slice audio (int k * n) (int k * n + n) \<and>
         int (length (bytes (frames ! k))) = n) \<and>
     (audio \<noteq> [] \<and> int (length audio) mod n = 0 \<longrightarrow>
        int (length frames) * n = int (length audio) - n)"
proof -
  define N where "N = nat n"
  define d where "d = frame_duration n sample_rate"
  define m where "m = (length audio - 1) div N"
  define frames where "frames = map (nth_frame N audio 0 d 0) [0..<m]"
  from assms(2) have N: "0 < N" "n = int N" by (simp_all add: N_def)
  have gen: "frame_generator frame_duration_ms audio sample_rate = Some (Inr frames)"
    using frame_generator_closed [of sample_rate frame_duration_ms audio] assms(2)
    by (simp add: n_def frames_def N_def d_def m_def)
  have len: "length frames = m" by (simp add: frames_def)
  have count: "k < m \<longleftrightarrow> int k * n + n < int (length audio)" for k
  proof -
    have "k < m \<longleftrightarrow> k * N + N < length audio"
      unfolding m_def using N(1) by (rule frame_count_iff)
    also have "\<dots> \<longleftrightarrow> int (k * N + N) < int (length audio)" by (simp only: of_nat_less_iff)
    finally show ?thesis by (simp add: N(2))
  qed
  have slices: "bytes (frames ! k) = py_slice audio (int k * n) (int k * n + n) \<and>
      int (length (bytes (frames ! k))) = n" if "k < m" for k
  proof -
    from that have "k * N + N < length audio"
      unfolding m_def using N(1) frame_count_iff by blast
    then have le: "k * N + N \<le> length audio" by simp
    have "bytes (frames ! k) = take N (drop (k * N) audio)"
      using that by (simp add: frames_def nth_frame_def)
    moreover have "py_slice audio (int (k * N)) (int (k * N) + int N) = take N (drop (k * N) audio)"
      using le by (rule py_slice_in_range)
    ultimately show ?thesis using le by (simp add: N(2))
  qed
  have fill: "int (length frames) * n = int (length audio) - n"
    if "audio \<noteq> []" "int (length audio) mod n = 0"
  proof -
    from that(2) have "int (length audio mod N) = 0"
      by (simp add: N(2) zmod_int)
    then have "length audio mod N = 0" by simp
    with that(1) N(1) have "m * N = length audio - N"
      unfolding m_def by (intro frame_count_exact_fill) simp_all
    moreover from \<open>length audio mod N = 0\<close> that(1) N(1) have "N \<le> length audio"
      by (metis dvd_imp_le length_greater_0_conv mod_0_imp_dvd)
    ultimately have "int m * int N = int (length audio) - int N"
      by (metis of_nat_diff of_nat_mult)
    then show ?thesis by (simp add: len N(2))
  qed
  have c1: "\<forall>k. k < length frames \<longleftrightarrow> int k * n + n < int (length audio)"
    using count by (simp only: len) blast
  have c2: "\<forall>k<length frames.
         bytes (frames ! k) = py_slice audio (int k * n) (int k * n + n) \<and>
         int (length (bytes (frames ! k))) = n"
    using slices by (simp only: len) blast
  have c3: "audio \<noteq> [] \<and> int (length audio) mod n = 0 \<longrightarrow>
        int (length frames) * n = int (length audio) - n"
  proof (intro impI, elim conjE)
    assume "audio \<noteq> []" "int (length audio) mod n = 0"
    then show "int (length frames) * n = int (length audio) - n" by (rule fill)
  qed
  show ?thesis
    by (rule exI [of _ frames]) (intro conjI gen c1 c2 c3)
qed

theorem framer_emits_only_full_frames_strictly_inside_witness:
  "frame_size 1000 1 = 2 \<and>
   (\<exists>frames. frame_generator 1 [1, 2, 3, 4, 5, 6] 1000 = Some (Inr frames) \<and>
      map bytes frames = [[1, 2], [3, 4]])"
proof -
  let ?audio = "[1, 2, 3, 4, 5, 6] :: byte list"
  have pos: "0 < frame_size 1000 1" by (simp add: frame_size_1000_1)
  from framer_emits_only_full_frames_strictly_inside [OF pos, of ?audio]
  obtain frames where gen: "frame_generator 1 ?audio 1000 = Some (Inr frames)"
    and count: "\<forall>k. k < length frames \<longleftrightarrow> int k * 2 + 2 < 6"
    and slices: "\<forall>k<length frames. bytes (frames ! k) = py_slice ?audio (int k * 2) (int k * 2 + 2)"
    by (auto simp: frame_size_1000_1)
  from count have "1 < length frames" "\<not> 2 < length frames" by simp_all
  then have len: "length frames = 2" by linarith
  with slices have "bytes (frames ! 0) = [1, 2]" "bytes (frames ! 1) = [3, 4]"
    by (simp_all add: py_slice_def slice_index_def)
  with len have "map bytes frames = [[1, 2], [3, 4]]"
    by (auto simp: list_eq_iff_nth_eq less_Suc_eq numeral_2_eq_2)
  with gen show ?thesis by (auto simp: frame_size_1000_1)
qed



subsection \<open>The concrete scenario\<close>

text \<open>
  Claim C6. Sample rate 16000 and frames of 30 ms give \<open>n = 960\<close>, a padding of 300 ms
  gives a ring buffer of 10 entries. On 25 frames that the classifier answers with 5
  unvoiced, 15 voiced and 5 unvoiced votes, the collector is \<open>NOT_TRIGGERED\<close> after each of
  the first 14 frames (and before the first), and \<open>TRIGGERED\<close> from the frame with index
  14 on. The 5 unvoiced votes at the end never fill the window, so the loop yields nothing
  and the input ends in \<open>TRIGGERED\<close>: the flush yields the one segment, the frames from
  index 5 to the end.
\<close>

theorem scenario_single_segment:
  assumes "classify_all 16000 vad v frames = map Inr scenario_votes"
  shows "frame_size 16000 30 = 960 \<and> num_padding_frames 300 30 = Inr 10 \<and>
     length frames = 25 \<and>
     map (\<lambda>k. triggered (fst (collector_run 10 initial_state
                                  (take k (zip frames scenario_votes))))) [0..<26]
       = replicate 15 False @ replicate 11 True \<and>
     snd (collector_run 10 initial_state (zip frames scenario_votes)) = [] \<and>
     vad_collector 16000 30 300 vad v frames = ([join_frames (drop 5 frames)], None)"
proof -
  have n: "frame_size 16000 30 = 960" by code_simp
  have w: "num_padding_frames 300 30 = Inr 10" by code_simp
  have len: "length frames = 25"
    using classify_all_answered_length [OF assms] by (simp add: scenario_votes_def)
  define g where "g = (\<lambda>k. frames ! k)"
  have frames: "frames = map g [0..<25]"
    unfolding g_def using len by (rule frames_25)
  have states: "map (\<lambda>k. triggered (fst (collector_run 10 initial_state
                                  (take k (zip frames scenario_votes))))) [0..<26]
       = replicate 15 False @ replicate 11 True"
    unfolding frames by (rule scenario_states)
  have run: "collector_run 10 initial_state (zip frames scenario_votes) =
     (\<lparr>triggered = True, ring_buffer = zip (map g [15..<25]) (drop 15 scenario_votes),
       voiced_frames = map g [5..<25]\<rparr>, [])"
    unfolding frames by (rule scenario_run)
  have "drop 5 frames = map g [5..<25]"
    by (subst frames) (simp add: drop_map)
  moreover have "map g [5..<25] \<noteq> []" by simp
  ultimately have "vad_collector 16000 30 300 vad v frames = ([join_frames (drop 5 frames)], None)"
    using collector_loop_answered [OF assms, of 10 initial_state] run
    by (simp add: vad_collector_def w final_flush_def)
  with n w len states run show ?thesis by simp
qed

theorem scenario_single_segment_witness:
  "vad_collector 16000 30 300 scripted (map Inr scenario_votes) scenario_frames =
     ([[5, 6, 7, 8, 9, 10, 11, 12, 13, 14, 15, 16, 17, 18, 19, 20, 21, 22, 23, 24]], None)"
proof -
  have "classify_all 16000 scripted (map Inr scenario_votes) scenario_frames =
      map Inr scenario_votes"
    unfolding scenario_votes_list scenario_frames_def upt_25
    by (simp add: scripted_def)
  from scenario_single_segment [OF this] show ?thesis
    by (simp add: scenario_frames_def upt_25 join_frames_def)
qed

subsection \<open>The shape of the segments\<close>

text \<open>
  Claim C10, as amended. Every buffer the collector yields joins, in the order of arrival,
  the bytes of a non-empty run of consecutive input frames. The buffer is empty exactly
  when every frame of the run has no bytes. When the frames are those of the framer with
  \<open>n\<close> positive, the buffer is the slice of the audio that starts at a multiple of \<open>n\<close>,
  and its length is a positive multiple of \<open>n\<close>.
\<close>

theorem segments_join_consecutive_frames:
  "\<forall>seg\<in>set (fst (vad_collector sample_rate frame_duration_ms padding_duration_ms vad v frames)).
     \<exists>before run after.
       frames = before @ run @ after \<and> run \<noteq> [] \<and> seg = join_frames run \<and>
       (seg = [] \<longleftrightarrow> (\<forall>f\<in>set run. bytes f = [])) \<and>
       (0 < frame_size sample_rate frame_duration_ms \<and>
        frame_generator frame_duration_ms audio sample_rate = Some (Inr frames) \<longrightarrow>
          (let n = nat (frame_size sample_rate frame_duration_ms)
           in seg = take (length run * n) (drop (length before * n) audio) \<and>
              length before * n + length run * n < length audio \<and>
              length seg = length run * n \<and> 0 < length seg))"
proof
  fix seg
  assume seg: "seg \<in> set (fst (vad_collector sample_rate frame_duration_ms padding_duration_ms
    vad v frames))"
  have "consecutive_run seg frames"
  proof (cases "num_padding_frames padding_duration_ms frame_duration_ms")
    case (Inl e)
    with seg show ?thesis by (simp add: vad_collector_def)
  next
    case (Inr w)
    with seg collector_loop_segments [OF consistent_initial, of sample_rate w vad v frames]
    show ?thesis by (simp add: vad_collector_def)
  qed
  then obtain before run after where
    run: "frames = before @ run @ after" "run \<noteq> []" "seg = join_frames run"
    unfolding consecutive_run_def by blast
  have framer: "let n = nat (frame_size sample_rate frame_duration_ms)
           in seg = take (length run * n) (drop (length before * n) audio) \<and>
              length before * n + length run * n < length audio \<and>
              length seg = length run * n \<and> 0 < length seg"
    if n: "0 < frame_size sample_rate frame_duration_ms"
      and gen: "frame_generator frame_duration_ms audio sample_rate = Some (Inr frames)"
  proof -
    define n where "n = nat (frame_size sample_rate frame_duration_ms)"
    from n have pos: "0 < n" by (simp add: n_def)
    from framer_run_is_slice [OF n gen run(1,2)]
    have slice: "seg = take (length run * n) (drop (length before * n) audio)"
      and bound: "(length before + length run) * n < length audio"
      by (simp_all add: n_def run(3))
    from bound have b: "length before * n + length run * n < length audio"
      by (simp add: algebra_simps)
    then have len: "length seg = length run * n"
      by (simp add: slice)
    moreover from run(2) pos have "0 < length run * n"
      by simp
    ultimately show ?thesis
      using slice b unfolding Let_def n_def [symmetric] by simp
  qed
  from run framer show "\<exists>before run after.
       frames = before @ run @ after \<and> run \<noteq> [] \<and> seg = join_frames run \<and>
       (seg = [] \<longleftrightarrow> (\<forall>f\<in>set run. bytes f = [])) \<and>
       (0 < frame_size sample_rate frame_duration_ms \<and>
        frame_generator frame_duration_ms audio sample_rate = Some (Inr frames) \<longrightarrow>
          (let n = nat (frame_size sample_rate frame_duration_ms)
           in seg = take (length run * n) (drop (length before * n) audio) \<and>
              length before * n + length run * n < length audio \<and>
              length seg = length run * n \<and> 0 < length seg))"
    using join_frames_empty_iff [of run] by blast
qed

theorem segments_join_consecutive_frames_witness:
  "vad_collector 16000 30 60 always_voiced () [fA, fB, fC] = ([[1, 2, 3, 4, 5, 6]], None) \<and>
   (\<exists>before run after. [fA, fB, fC] = before @ run @ after \<and> run \<noteq> [] \<and>
      [1, 2, 3, 4, 5, 6] = join_frames run) \<and>
   (\<exists>frames (before :: Frame list) (run :: Frame list).
      frame_generator 1 [1, 2, 3, 4, 5, 6, 7] 1000 = Some (Inr frames) \<and>
      vad_collector 1000 1 2 always_voiced () frames = ([[1, 2, 3, 4, 5, 6]], None) \<and>
      ([1, 2, 3, 4, 5, 6] :: byte list) =
        take (length run * 2) (drop (length before * 2) [1, 2, 3, 4, 5, 6, 7]) \<and>
      length before * 2 + length run * 2 < 7)"
proof -
  let ?audio = "[1, 2, 3, 4, 5, 6, 7] :: byte list"
  let ?seg = "[1, 2, 3, 4, 5, 6] :: byte list"
  have w: "num_padding_frames 60 30 = Inr 2" "num_padding_frames 2 1 = Inr 2"
    by code_simp+
  have out1: "vad_collector 16000 30 60 always_voiced () [fA, fB, fC] = ([?seg], None)"
    by (simp add: w vad_collector_def always_voiced_def collector_step_def deque_append_def
        num_voiced_def num_unvoiced_def threshold_2 initial_state_def final_flush_def
        join_frames_def fA_def fB_def fC_def)
  then have "?seg \<in> set (fst (vad_collector 16000 30 60 always_voiced () [fA, fB, fC]))"
    by simp
  with segments_join_consecutive_frames [of 16000 30 60 always_voiced "()" "[fA, fB, fC]"]
  have part1: "\<exists>before run after. [fA, fB, fC] = before @ run @ after \<and> run \<noteq> [] \<and>
      ?seg = join_frames run"
    by blast
  have pos: "0 < frame_size 1000 1" by (simp add: frame_size_1000_1)
  from frame_generator_closed [OF pos, of ?audio]
  obtain frames where gen: "frame_generator 1 ?audio 1000 = Some (Inr frames)"
    by simp
  have out2: "vad_collector 1000 1 2 always_voiced () frames = ([?seg], None)"
    using framed_example by (simp add: gen)
  then have mem: "?seg \<in> set (fst (vad_collector 1000 1 2 always_voiced () frames))"
    by simp
  from segments_join_consecutive_frames
    [of 1000 1 2 always_voiced "()" frames ?audio, THEN bspec, OF mem]
  obtain before run :: "Frame list" where
    "0 < frame_size 1000 1 \<and> frame_generator 1 ?audio 1000 = Some (Inr frames) \<longrightarrow>
       (let n = nat (frame_size 1000 1)
        in ?seg = take (length run * n) (drop (length before * n) ?audio) \<and>
           length before * n + length run * n < length ?audio \<and>
           length ?seg = length run * n \<and> 0 < length ?seg)"
    by blast
  with pos gen have
    "?seg = take (length run * 2) (drop (length before * 2) ?audio)"
    "length before * 2 + length run * 2 < 7"
    by (simp_all add: frame_size_1000_1 Let_def)
  with gen out2 have part2: "\<exists>frames (before :: Frame list) (run :: Frame list).
      frame_generator 1 ?audio 1000 = Some (Inr frames) \<and>
      vad_collector 1000 1 2 always_voiced () frames = ([?seg], None) \<and>
      ?seg = take (length run * 2) (drop (length before * 2) ?audio) \<and>
      length before * 2 + length run * 2 < 7"
    by blast
  from out1 part1 part2 show ?thesis by blast
qed

text \<open>
  The claim as first stated, that every yielded buffer is non-empty for every frame
  sequence, fails on a frame without bytes: with a ring buffer of one entry and a voiced
  vote, the flush yields the empty buffer.
\<close>

theorem empty_segment_counterexample:
  "num_padding_frames 30 30 = Inr 1 \<and>
   vad_collector 16000 30 30 always_voiced () [empty_frame] = ([[]], None)"
proof -
  have w: "num_padding_frames 30 30 = Inr 1"
    by code_simp
  have t: "threshold (Suc 0) = 8106479329266893 / 9007199254740992"
    using threshold_1 by simp
  show ?thesis
    by (simp add: w t vad_collector_def always_voiced_def collector_step_def deque_append_def
        num_voiced_def initial_state_def final_flush_def join_frames_def
        empty_frame_def)
qed

end
